theory Spec2Isabelle
  imports Main "HOL-Library.Word"
begin

section \<open>Bytes, \<open>size_t\<close> and the standard library pieces the code calls\<close>

text \<open>
  The embedded file is \<^verbatim>\<open>CSVLengthIndicated.cpp\<close>. A byte is a \<open>char\<close>, a
  \<^verbatim>\<open>std::string\<close> and the bytes of a file are a \<open>string\<close>. The length field is a
  \<^verbatim>\<open>size_t\<close>; the platform fixed here is LP64 little-endian (8 bytes, least
  significant byte first), where text mode changes no byte of the input and a line ends
  with the byte 10. \<open>string_max_size\<close> is \<^verbatim>\<open>std::string::max_size()\<close>, here the
  value of GNU libstdc++ on that platform: constructing a longer string throws
  \<^verbatim>\<open>std::length_error\<close>, and \<^verbatim>\<open>getline\<close> stops storing characters there.
  The proofs use the constant by its name and, of its value, only that it is below the
  largest \<open>size_t\<close>. The encoder is taken to have the memory for the lines it reads and
  the disk the room for what it writes; the memory of the decoder is modelled below.
\<close>

type_synonym size_t = "64 word"

definition sizeof_size_t :: nat where
  "sizeof_size_t = 8"

definition string_max_size :: nat where
  "string_max_size = 4611686018427387903"

definition NUL :: char where
  "NUL = CHR 0x00"

definition newline :: char where
  "newline = CHR 0x0A"

text \<open>
  \<^verbatim>\<open>reinterpret_cast<const char *>(&recordLength)\<close>: the object representation of
  an unsigned integer, \<open>k\<close> bytes, least significant first, and the value such bytes hold.
\<close>

fun le_bytes :: "nat \<Rightarrow> nat \<Rightarrow> string" where
  "le_bytes 0 n = []"
| "le_bytes (Suc k) n = char_of (n mod 256) # le_bytes k (n div 256)"

fun le_value :: "string \<Rightarrow> nat" where
  "le_value [] = 0"
| "le_value (c # cs) = of_char c + 256 * le_value cs"

definition size_t_bytes :: "size_t \<Rightarrow> string" where
  "size_t_bytes v = le_bytes sizeof_size_t (unat v)"

definition size_t_of_bytes :: "string \<Rightarrow> size_t" where
  "size_t_of_bytes bs = of_nat (le_value bs)"

subsection \<open>Input streams\<close>

text \<open>
  An input stream is the bytes of its file, the get position and the three state bits of
  \<^verbatim>\<open>std::ios\<close>.
\<close>

record istream =
  content :: string
  gpos :: nat
  eofbit :: bool
  failbit :: bool
  badbit :: bool

definition good :: "istream \<Rightarrow> bool" where
  "good s \<longleftrightarrow> \<not> eofbit s \<and> \<not> failbit s \<and> \<not> badbit s"

text \<open>\<^verbatim>\<open>!stream\<close>, the test a \<^verbatim>\<open>while (getline(...))\<close> makes.\<close>

definition fails :: "istream \<Rightarrow> bool" where
  "fails s \<longleftrightarrow> failbit s \<or> badbit s"

definition istream_on :: "string \<Rightarrow> istream" where
  "istream_on bytes =
     \<lparr>content = bytes, gpos = 0, eofbit = False, failbit = False, badbit = False\<rparr>"

text \<open>
  \<^verbatim>\<open>istream::read(buf, n)\<close>. \<open>buf\<close> is what the destination memory held before the
  call. On a stream that is not good the sentry sets \<open>failbit\<close> and nothing is stored.
  Otherwise the bytes available, at most \<open>n\<close>, are stored at the front of the buffer, and
  when fewer than \<open>n\<close> were available \<open>eofbit\<close> and \<open>failbit\<close> are set.
\<close>

definition istream_read :: "string \<Rightarrow> nat \<Rightarrow> istream \<Rightarrow> string \<times> istream" where
  "istream_read buf n s =
     (if \<not> good s then (buf, s\<lparr>failbit := True\<rparr>)
      else let got = take n (drop (gpos s) (content s))
           in (got @ drop (length got) buf,
               if length got = n then s\<lparr>gpos := gpos s + n\<rparr>
               else s\<lparr>gpos := gpos s + length got, eofbit := True, failbit := True\<rparr>))"

text \<open>
  \<^verbatim>\<open>std::getline(stream, line)\<close>. On a stream that is not good the sentry sets
  \<open>failbit\<close> and \<open>line\<close> keeps its value. Otherwise \<open>line\<close> is erased and characters
  are moved into it up to the first newline, the end of the file, or \<open>string_max_size\<close>
  characters. The newline is taken from the stream and not stored. At the end of the file
  \<open>eofbit\<close> is set, and \<open>failbit\<close> with it when nothing at all was extracted. When the
  line is full and the next character is neither, \<open>failbit\<close> is set.
\<close>

definition getline :: "istream \<Rightarrow> string \<Rightarrow> string \<times> istream" where
  "getline s line =
     (if \<not> good s then (line, s\<lparr>failbit := True\<rparr>)
      else let rest = drop (gpos s) (content s);
               str = take string_max_size (takeWhile (\<lambda>c. c \<noteq> newline) rest)
           in case drop (length str) rest of
                [] \<Rightarrow> (str, s\<lparr>gpos := gpos s + length str, eofbit := True,
                             failbit := (str = [])\<rparr>)
              | c # _ \<Rightarrow>
                  if c = newline then (str, s\<lparr>gpos := gpos s + length str + 1\<rparr>)
                  else (str, s\<lparr>gpos := gpos s + length str, failbit := True\<rparr>))"

text \<open>\<^verbatim>\<open>ostream::write(buf, n)\<close> on the bytes written so far.\<close>

definition ostream_write :: "string \<Rightarrow> string \<Rightarrow> nat \<Rightarrow> string" where
  "ostream_write out buf n = out @ take n buf"

subsection \<open>Files\<close>

text \<open>
  The world the encoder runs in: the files by path, which paths an \<^verbatim>\<open>ifstream\<close>
  may open, which paths an \<^verbatim>\<open>ofstream\<close> may open (creating the file or emptying
  it), and what has been printed on \<^verbatim>\<open>std::cerr\<close>.
\<close>

record world =
  files :: "string \<rightharpoonup> string"
  may_read :: "string \<Rightarrow> bool"
  may_write :: "string \<Rightarrow> bool"
  cerr :: string

definition ifstream_is_open :: "string \<Rightarrow> world \<Rightarrow> bool" where
  "ifstream_is_open path w \<longleftrightarrow> files w path \<noteq> None \<and> may_read w path"

definition ofstream_open :: "string \<Rightarrow> world \<Rightarrow> bool \<times> world" where
  "ofstream_open path w =
     (if may_write w path then (True, w\<lparr>files := (files w)(path \<mapsto> [])\<rparr>)
      else (False, w))"

definition file_bytes :: "world \<Rightarrow> string \<Rightarrow> string" where
  "file_bytes w path = (case files w path of None \<Rightarrow> [] | Some bytes \<Rightarrow> bytes)"

section \<open>The encoder\<close>

text \<open>
  The loop of \<^verbatim>\<open>convertCSVToLengthIndicated\<close>:
  \<^verbatim>\<open>while (getline(inputFile, line)) { write(&recordLength, sizeof recordLength); write(line.c_str(), recordLength); }\<close>
  on the input stream, the variable \<open>line\<close> and the bytes written so far.
\<close>

function encode_loop :: "istream \<Rightarrow> string \<Rightarrow> string \<Rightarrow> string" where
  "encode_loop inputFile line out =
     (case getline inputFile line of
        (line', inputFile') \<Rightarrow>
          if fails inputFile' then out
          else let recordLength = (of_nat (length line') :: size_t)
               in encode_loop inputFile' line'
                    (ostream_write
                       (ostream_write out (size_t_bytes recordLength) sizeof_size_t)
                       line' (unat recordLength)))"
  by pat_completeness auto
termination
  apply (relation "measure (\<lambda>(s, line, out). if good s then Suc (length (content s) - gpos s) else 0)")
   apply simp
  subgoal premises step for inputFile line out line' inputFile'
  proof -
    have eq: "getline inputFile line = (line', inputFile')"
      using step(1) by simp
    have more: "n < length xs" if "drop n xs = y # ys" for n y and xs ys :: string
      using that by (cases "n < length xs") auto
    show ?thesis
      using eq step(2)
      by (auto simp: getline_def fails_def good_def Let_def dest!: more
            split: if_splits list.splits)
  qed
  done

declare encode_loop.simps [simp del]

text \<open>
  \<^verbatim>\<open>convertCSVToLengthIndicated(csvFile, outputFile)\<close>. The input is opened first,
  then the output, which empties or creates it; the test of both comes after. The input
  stream reads its file when the loop first asks, that is after the output was opened.
\<close>

definition convertCSVToLengthIndicated :: "string \<Rightarrow> string \<Rightarrow> world \<Rightarrow> world" where
  "convertCSVToLengthIndicated csvFile outputFile w =
     (let inputOpen = ifstream_is_open csvFile w;
          (outputOpen, w1) = ofstream_open outputFile w
      in if \<not> inputOpen \<or> \<not> outputOpen
         then w1\<lparr>cerr := cerr w1 @ ''Error opening file!'' @ [newline]\<rparr>
         else let inputFile = istream_on (file_bytes w1 csvFile)
              in w1\<lparr>files := (files w1)(outputFile \<mapsto> encode_loop inputFile [] [])\<rparr>)"

section \<open>The decoder\<close>

datatype error = LengthError | BadAlloc

text \<open>
  The memory the string constructor asks for. \<open>heap\<close> is the number of bytes the
  allocator can give when the function is called. The file the stream reads is taken to
  fit into memory, so a string no longer than that file is always built; a longer one is
  built when \<open>heap\<close> allows it, and otherwise the constructor throws
  \<^verbatim>\<open>std::bad_alloc\<close>.
\<close>

definition can_allocate :: "nat \<Rightarrow> istream \<Rightarrow> nat \<Rightarrow> bool" where
  "can_allocate heap s n \<longleftrightarrow> n \<le> length (content s) \<or> n \<le> heap"

text \<open>
  \<^verbatim>\<open>readLengthIndicatedRecord(fileStream)\<close>. \<open>recordLength\<close> is declared without a
  value: \<open>uninit\<close> is what its eight bytes hold when the function is entered. The
  first read stores over them as many bytes as it gets. The string constructor throws
  \<^verbatim>\<open>std::length_error\<close> for a length above \<open>string_max_size\<close> and
  \<^verbatim>\<open>std::bad_alloc\<close> when the memory is not there; the stream, passed by reference,
  keeps the state the first read left. The result is the exception or the returned string,
  and the stream.
\<close>

definition readLengthIndicatedRecord ::
  "nat \<Rightarrow> size_t \<Rightarrow> istream \<Rightarrow> (error + string) \<times> istream" where
  "readLengthIndicatedRecord heap uninit fileStream =
     (case istream_read (size_t_bytes uninit) sizeof_size_t fileStream of
        (lengthBytes, s1) \<Rightarrow>
          let recordLength = size_t_of_bytes lengthBytes
          in if unat recordLength > string_max_size then (Inl LengthError, s1)
             else if \<not> can_allocate heap s1 (unat recordLength) then (Inl BadAlloc, s1)
             else case istream_read (replicate (unat recordLength) NUL) (unat recordLength) s1 of
                    (record, s2) \<Rightarrow> (Inr record, s2))"

section \<open>What the claims speak of\<close>

text \<open>
  Modelled from the spec: the caller that loops over decode calls is not in the source
  file. It calls \<open>readLengthIndicatedRecord\<close> again and again, checks the state of the
  stream after each call, keeps the string when the stream has not failed and stops when
  it has. \<open>uninit i\<close> is what call number \<open>i\<close> finds in its uninitialised variable,
  \<open>heap i\<close> the memory the allocator can give it. The loop also ends when a call throws.
\<close>

datatype decode_end = EndOfStream | Raised error

function decode_all ::
  "(nat \<Rightarrow> nat) \<Rightarrow> (nat \<Rightarrow> size_t) \<Rightarrow> nat \<Rightarrow> istream \<Rightarrow> string list \<Rightarrow>
     string list \<times> decode_end" where
  "decode_all heap uninit i fileStream records =
     (case readLengthIndicatedRecord (heap i) (uninit i) fileStream of
        (Inl e, s') \<Rightarrow> (records, Raised e)
      | (Inr record, s') \<Rightarrow>
          if fails s' then (records, EndOfStream)
          else decode_all heap uninit (Suc i) s' (records @ [record]))"
  by pat_completeness auto
termination
  apply (relation "measure (\<lambda>(heap, uninit, i, s, records). length (content s) - gpos s)")
   apply simp
  subgoal premises step for heap uninit i fileStream records res s' payload
  proof -
    have eq: "readLengthIndicatedRecord (heap i) (uninit i) fileStream = (Inr payload, s')"
      using step(1,2) by simp
    have rd: "\<not> failbit t \<Longrightarrow>
                content t = content s \<and> gpos t = gpos s + n \<and> (0 < n \<longrightarrow> gpos t \<le> length (content s))"
      if "istream_read buf n s = (r, t)" for buf n s r t
      using that by (auto simp: istream_read_def Let_def split: if_splits)
    obtain lb s1 where r1: "istream_read (size_t_bytes (uninit i)) sizeof_size_t fileStream = (lb, s1)"
      by (cases "istream_read (size_t_bytes (uninit i)) sizeof_size_t fileStream")
    obtain s2 where r2: "istream_read (replicate (unat (size_t_of_bytes lb)) NUL) (unat (size_t_of_bytes lb)) s1 = (payload, s2)" and s2: "s2 = s'"
      using eq r1 by (auto simp: readLengthIndicatedRecord_def Let_def split: if_splits prod.splits)
    have nf2: "\<not> failbit s2" using step(3) s2 by (simp add: fails_def)
    have nf1: "\<not> failbit s1"
      using r2 nf2 by (auto simp: istream_read_def Let_def good_def split: if_splits)
    from rd[OF r1 nf1] rd[OF r2 nf2] s2
    have "gpos fileStream + 8 \<le> length (content fileStream)"
      and "gpos s' = gpos fileStream + 8 + unat (size_t_of_bytes lb)"
      and "content s' = content fileStream"
      by (simp_all add: sizeof_size_t_def)
    then show ?thesis by simp
  qed
  done

declare decode_all.simps [simp del]

text \<open>
  A text line holds no newline and fits a \<^verbatim>\<open>std::string\<close>. A text source holds the
  lines \<open>ls\<close> when it is these lines, each followed by a newline; the newline after
  the last line may be missing when that line is not empty.
\<close>

definition text_line :: "string \<Rightarrow> bool" where
  "text_line l \<longleftrightarrow> newline \<notin> set l \<and> length l \<le> string_max_size"

definition terminated :: "string list \<Rightarrow> string" where
  "terminated ls = concat (map (\<lambda>l. l @ [newline]) ls)"

definition holds_lines :: "string \<Rightarrow> string list \<Rightarrow> bool" where
  "holds_lines text ls \<longleftrightarrow>
     list_all text_line ls \<and>
     (text = terminated ls \<or> (ls \<noteq> [] \<and> last ls \<noteq> [] \<and> text @ [newline] = terminated ls))"

text \<open>
  A world for concrete runs: the listed files, every path open to reading and writing,
  nothing printed yet.
\<close>

definition world_of :: "(string \<times> string) list \<Rightarrow> world" where
  "world_of fs = \<lparr>files = map_of fs, may_read = (\<lambda>_. True), may_write = (\<lambda>_. True), cerr = []\<rparr>"

text \<open>
  How the loop ends on a stream that holds whole records only: by what the call at the end
  of the stream does with its uninitialised length.
\<close>

definition last_call :: "nat \<Rightarrow> size_t \<Rightarrow> istream \<Rightarrow> decode_end" where
  "last_call heap uninit s =
     (if unat uninit > string_max_size then Raised LengthError
      else if \<not> can_allocate heap s (unat uninit) then Raised BadAlloc
      else EndOfStream)"

text \<open>One record of the binary format: the length field, then the payload.\<close>

definition record_bytes :: "string \<Rightarrow> string" where
  "record_bytes payload = size_t_bytes (of_nat (length payload)) @ payload"

section \<open>Auxiliary facts\<close>

subsection \<open>The bytes of a length field\<close>

lemma length_le_bytes: "length (le_bytes k n) = k"
  by (induction k arbitrary: n) simp_all

lemma le_value_le_bytes: "le_value (le_bytes k n) = n mod 256 ^ k"
proof (induction k arbitrary: n)
  case 0
  show ?case by simp
next
  case (Suc k)
  have "n mod 256 + 256 * (n div 256 mod 256 ^ k) = n mod (256 * 256 ^ k)"
    by (simp add: mod_mult2_eq)
  with Suc show ?case by (simp add: of_char_of)
qed

lemma length_size_t_bytes: "length (size_t_bytes v) = sizeof_size_t"
  by (simp add: size_t_bytes_def length_le_bytes)

lemma size_t_of_bytes_bytes: "size_t_of_bytes (size_t_bytes v) = v"
proof -
  have "unat v < 256 ^ 8"
    using unsigned_less [of v, where 'a = nat] by simp
  then show ?thesis
    by (simp add: size_t_of_bytes_def size_t_bytes_def le_value_le_bytes sizeof_size_t_def)
qed

lemma unat_length_word:
  "length l \<le> string_max_size \<Longrightarrow> unat (of_nat (length l) :: size_t) = length l"
  by (simp add: unat_of_nat string_max_size_def)


lemma good_istream_on: "good (istream_on bytes)"
  by (simp add: good_def istream_on_def)

lemma istream_read_exact:
  assumes "good s" and "drop (gpos s) (content s) = bs @ after" and "length bs = n"
    and "length buf \<le> n"
  shows "istream_read buf n s = (bs, s\<lparr>gpos := gpos s + n\<rparr>)"
  using assms by (simp add: istream_read_def Let_def)

lemma istream_read_short:
  assumes "good s" and "drop (gpos s) (content s) = bs" and "length bs < n"
  shows "istream_read buf n s =
           (bs @ drop (length bs) buf,
            s\<lparr>gpos := gpos s + length bs, eofbit := True, failbit := True\<rparr>)"
  using assms by (simp add: istream_read_def Let_def)

lemma istream_read_not_good:
  "\<not> good s \<Longrightarrow> istream_read buf n s = (buf, s\<lparr>failbit := True\<rparr>)"
  by (simp add: istream_read_def)

lemma takeWhile_text_line:
  "text_line l \<Longrightarrow> takeWhile (\<lambda>c. c \<noteq> newline) (l @ newline # after) = l"
  by (auto simp: text_line_def takeWhile_tail)

lemma getline_line:
  assumes "good s" and "drop (gpos s) (content s) = l @ newline # after" and "text_line l"
  shows "getline s line = (l, s\<lparr>gpos := gpos s + length l + 1\<rparr>)"
proof -
  have "length l \<le> string_max_size"
    using assms(3) by (simp add: text_line_def)
  then show ?thesis
    using assms(1,2) by (simp add: getline_def Let_def takeWhile_text_line [OF assms(3)])
qed

lemma getline_at_end:
  assumes "good s" and "drop (gpos s) (content s) = []"
  shows "getline s line = ([], s\<lparr>eofbit := True, failbit := True\<rparr>)"
  using assms by (simp add: getline_def Let_def)

lemma getline_not_good:
  "\<not> good s \<Longrightarrow> getline s line = (line, s\<lparr>failbit := True\<rparr>)"
  by (simp add: getline_def)

lemma written_record:
  assumes "text_line l"
  shows "ostream_write (ostream_write out (size_t_bytes (of_nat (length l))) sizeof_size_t)
           l (unat (of_nat (length l) :: size_t)) = out @ record_bytes l"
  using assms
  by (simp add: ostream_write_def record_bytes_def length_size_t_bytes text_line_def
      unat_length_word)

lemma encode_loop_terminated:
  assumes "list_all text_line ls" and "good s"
    and "drop (gpos s) (content s) = terminated ls"
  shows "encode_loop s line out = out @ concat (map record_bytes ls)"
  using assms
proof (induction ls arbitrary: s line out)
  case Nil
  then have "getline s line = ([], s\<lparr>eofbit := True, failbit := True\<rparr>)"
    by (simp add: getline_at_end terminated_def)
  then show ?case
    by (subst encode_loop.simps) (simp add: fails_def)
next
  case (Cons l ls)
  let ?s' = "s\<lparr>gpos := gpos s + length l + 1\<rparr>"
  from Cons.prems(1) have l: "text_line l" and ls: "list_all text_line ls"
    by simp_all
  have rest: "drop (gpos s) (content s) = l @ newline # terminated ls"
    using Cons.prems(3) by (simp add: terminated_def)
  have g: "getline s line = (l, ?s')"
    using Cons.prems(2) rest l by (rule getline_line)
  have good': "good ?s'"
    using Cons.prems(2) by (simp add: good_def)
  have "drop (length l + 1) (drop (gpos s) (content s)) = terminated ls"
    by (simp add: rest)
  then have rest': "drop (gpos ?s') (content ?s') = terminated ls"
    by (simp add: add.commute add.left_commute)
  have "encode_loop s line out = encode_loop ?s' l (out @ record_bytes l)"
    using good' by (subst encode_loop.simps) (simp add: g written_record [OF l] fails_def good_def)
  also have "\<dots> = (out @ record_bytes l) @ concat (map record_bytes ls)"
    using ls good' rest' by (rule Cons.IH)
  finally show ?case by simp
qed

lemma read_record:
  assumes "good s"
    and "drop (gpos s) (content s) = size_t_bytes len @ payload @ after"
    and "length payload = unat len" and "unat len \<le> string_max_size"
  shows "readLengthIndicatedRecord heap uninit s =
           (Inr payload, s\<lparr>gpos := gpos s + sizeof_size_t + unat len\<rparr>)"
proof -
  let ?s1 = "s\<lparr>gpos := gpos s + sizeof_size_t\<rparr>"
  have "length (drop (gpos s) (content s)) \<le> length (content s)"
    by simp
  then have "unat len \<le> length (content s)"
    using assms(3) by (simp only: assms(2) length_append)
  then have room: "can_allocate heap ?s1 (unat len)"
    by (simp add: can_allocate_def)
  have r1: "istream_read (size_t_bytes uninit) sizeof_size_t s = (size_t_bytes len, ?s1)"
    using assms(1,2) by (rule istream_read_exact) (simp_all add: length_size_t_bytes)
  have good1: "good ?s1"
    using assms(1) by (simp add: good_def)
  have "drop (sizeof_size_t) (drop (gpos s) (content s)) = payload @ after"
    by (simp add: assms(2) length_size_t_bytes)
  then have rest1: "drop (gpos ?s1) (content ?s1) = payload @ after"
    by (simp add: add.commute)
  have r2: "istream_read (replicate (unat len) NUL) (unat len) ?s1 =
              (payload, ?s1\<lparr>gpos := gpos ?s1 + unat len\<rparr>)"
    using good1 rest1 assms(3) by (rule istream_read_exact) simp
  show ?thesis
    using assms(4) room
    by (simp add: readLengthIndicatedRecord_def r1 size_t_of_bytes_bytes r2)
qed

lemma read_exhausted:
  assumes "good s" and "drop (gpos s) (content s) = bs" and "length bs < sizeof_size_t"
  shows "readLengthIndicatedRecord heap uninit s =
           (let v = size_t_of_bytes (bs @ drop (length bs) (size_t_bytes uninit));
                s1 = s\<lparr>gpos := gpos s + length bs, eofbit := True, failbit := True\<rparr>
            in if unat v > string_max_size then (Inl LengthError, s1)
               else if \<not> can_allocate heap s (unat v) then (Inl BadAlloc, s1)
               else (Inr (replicate (unat v) NUL), s1))"
proof -
  let ?s1 = "s\<lparr>gpos := gpos s + length bs, eofbit := True, failbit := True\<rparr>"
  have r1: "istream_read (size_t_bytes uninit) sizeof_size_t s =
              (bs @ drop (length bs) (size_t_bytes uninit), ?s1)"
    using assms by (rule istream_read_short)
  have "\<not> good ?s1" by (simp add: good_def)
  then have r2: "istream_read buf n ?s1 = (buf, ?s1)" for buf n
    by (simp add: istream_read_not_good)
  show ?thesis
    by (simp add: readLengthIndicatedRecord_def r1 r2 Let_def can_allocate_def)
qed

lemma decode_all_records:
  assumes "\<forall>l\<in>set ls. length l \<le> string_max_size" and "good s"
    and "drop (gpos s) (content s) = concat (map record_bytes ls)"
  shows "decode_all heap uninit i s acc =
           (acc @ ls, last_call (heap (i + length ls)) (uninit (i + length ls)) s)"
  using assms
proof (induction ls arbitrary: s i acc)
  case Nil
  have "readLengthIndicatedRecord (heap i) (uninit i) s =
          (let v = uninit i; s1 = s\<lparr>eofbit := True, failbit := True\<rparr>
           in if unat v > string_max_size then (Inl LengthError, s1)
              else if \<not> can_allocate (heap i) s (unat v) then (Inl BadAlloc, s1)
              else (Inr (replicate (unat v) NUL), s1))"
    using read_exhausted [of s "[]" "heap i" "uninit i"] Nil.prems
    by (simp add: size_t_of_bytes_bytes sizeof_size_t_def)
  then show ?case
    by (subst decode_all.simps) (simp add: Let_def fails_def last_call_def)
next
  case (Cons l ls)
  let ?s' = "s\<lparr>gpos := gpos s + sizeof_size_t + length l\<rparr>"
  from Cons.prems(1) have l: "length l \<le> string_max_size"
    and ls: "\<forall>l\<in>set ls. length l \<le> string_max_size"
    by simp_all
  have len: "unat (of_nat (length l) :: size_t) = length l"
    using l by (rule unat_length_word)
  have rest: "drop (gpos s) (content s) =
                size_t_bytes (of_nat (length l)) @ l @ concat (map record_bytes ls)"
    using Cons.prems(3) by (simp add: record_bytes_def [of l])
  have r: "readLengthIndicatedRecord (heap i) (uninit i) s = (Inr l, ?s')"
    using read_record [OF Cons.prems(2) rest, of "heap i" "uninit i"] l by (simp add: len)
  have good': "good ?s'"
    using Cons.prems(2) by (simp add: good_def)
  have "drop (sizeof_size_t + length l) (drop (gpos s) (content s)) =
          concat (map record_bytes ls)"
    by (simp add: rest length_size_t_bytes)
  then have rest': "drop (gpos ?s') (content ?s') = concat (map record_bytes ls)"
    by (simp add: add.commute add.left_commute)
  have "decode_all heap uninit i s acc = decode_all heap uninit (Suc i) ?s' (acc @ [l])"
    using good' by (subst decode_all.simps) (simp add: r fails_def good_def)
  also have "\<dots> = ((acc @ [l]) @ ls,
                 last_call (heap (Suc i + length ls)) (uninit (Suc i + length ls)) ?s')"
    using ls good' rest' by (rule Cons.IH)
  finally show ?case by (simp add: last_call_def can_allocate_def)
qed

lemma takeWhile_snoc_newline:
  "takeWhile (\<lambda>c. c \<noteq> newline) (r @ [newline]) = takeWhile (\<lambda>c. c \<noteq> newline) r"
  by (induction r) simp_all

lemma encode_loop_stops:
  "fails (snd (getline s line)) \<Longrightarrow> encode_loop s line out = out"
  by (subst encode_loop.simps) (cases "getline s line", simp)

lemma encode_loop_step:
  assumes "getline s line = (l, s')" and "\<not> fails s'"
  shows "encode_loop s line out =
           encode_loop s' l
             (ostream_write (ostream_write out (size_t_bytes (of_nat (length l))) sizeof_size_t)
                l (unat (of_nat (length l) :: size_t)))"
  using assms by (subst encode_loop.simps) (simp add: Let_def)

lemma encode_loop_final_newline:
  assumes "good s" and "drop (gpos s) (content s) = r" and "r \<noteq> []"
    and "last r \<noteq> newline"
  shows "encode_loop (s\<lparr>content := content s @ [newline]\<rparr>) line out = encode_loop s line out"
  using assms
proof (induction "length r" arbitrary: s r line out rule: less_induct)
  case less
  let ?t = "s\<lparr>content := content s @ [newline]\<rparr>"
  define str where "str = take string_max_size (takeWhile (\<lambda>c. c \<noteq> newline) r)"
  define aft where "aft = drop (length str) r"
  have prefix: "take k r @ drop (length (take k r)) r = r" for k
    by (cases "k \<le> length r") (simp_all add: min_def)
  have "str = take (min string_max_size (length (takeWhile (\<lambda>c. c \<noteq> newline) r))) r"
    unfolding str_def by (subst takeWhile_eq_take) simp
  then have r: "r = str @ aft"
    unfolding aft_def using prefix by simp
  have gp: "gpos s < length (content s)"
    using less.prems(2,3) by (cases "gpos s < length (content s)") auto
  have len: "length (content s) = gpos s + length r"
    using arg_cong [OF less.prems(2), of length] gp by simp
  have good_t: "good ?t"
    using less.prems(1) by (simp add: good_def)
  have rest_t: "drop (gpos ?t) (content ?t) = r @ [newline]"
    using gp less.prems(2) by simp
  have gs: "getline s line =
      (case aft of
         [] \<Rightarrow> (str, s\<lparr>gpos := gpos s + length str, eofbit := True, failbit := (str = [])\<rparr>)
       | c # _ \<Rightarrow>
           if c = newline then (str, s\<lparr>gpos := gpos s + length str + 1\<rparr>)
           else (str, s\<lparr>gpos := gpos s + length str, failbit := True\<rparr>))"
    unfolding getline_def Let_def less.prems(2) str_def [symmetric] aft_def [symmetric]
    using less.prems(1) by simp
  have dt: "drop (length str) (r @ [newline]) = aft @ [newline]"
    using arg_cong [OF r, of length] by (simp add: aft_def)
  have gt: "getline ?t line =
      (case aft @ [newline] of
         [] \<Rightarrow> (str, ?t\<lparr>gpos := gpos ?t + length str, eofbit := True, failbit := (str = [])\<rparr>)
       | c # _ \<Rightarrow>
           if c = newline then (str, ?t\<lparr>gpos := gpos ?t + length str + 1\<rparr>)
           else (str, ?t\<lparr>gpos := gpos ?t + length str, failbit := True\<rparr>))"
    unfolding getline_def Let_def rest_t takeWhile_snoc_newline str_def [symmetric] dt
    using good_t by simp
  show ?case
  proof (cases aft)
    case Nil
    with r less.prems(3) have str: "str = r" "r \<noteq> []" by simp_all
    let ?sa = "s\<lparr>gpos := gpos s + length r, eofbit := True, failbit := False\<rparr>"
    let ?sb = "?t\<lparr>gpos := gpos s + length r + 1\<rparr>"
    let ?out = "ostream_write (ostream_write out (size_t_bytes (of_nat (length r))) sizeof_size_t)
                  r (unat (of_nat (length r) :: size_t))"
    have ga: "getline s line = (r, ?sa)"
      using gs Nil str by simp
    have gb: "getline ?t line = (r, ?sb)"
      using gt Nil str by simp
    have "\<not> fails ?sa" "\<not> fails ?sb"
      using less.prems(1) by (simp_all add: fails_def good_def)
    then have a: "encode_loop s line out = encode_loop ?sa r ?out"
      and b: "encode_loop ?t line out = encode_loop ?sb r ?out"
      using ga gb by (simp_all add: encode_loop_step)
    have "fails (snd (getline ?sa r))"
      by (simp add: getline_not_good good_def fails_def)
    then have a': "encode_loop ?sa r ?out = ?out"
      by (rule encode_loop_stops)
    have "good ?sb" using less.prems(1) by (simp add: good_def)
    moreover have "drop (gpos ?sb) (content ?sb) = []"
      by (simp add: len)
    ultimately have "getline ?sb r = ([], ?sb\<lparr>eofbit := True, failbit := True\<rparr>)"
      by (rule getline_at_end)
    then have "fails (snd (getline ?sb r))"
      by (simp add: fails_def)
    then have b': "encode_loop ?sb r ?out = ?out"
      by (rule encode_loop_stops)
    show ?thesis
      by (simp only: a a' b b')
  next
    case (Cons c aft')
    show ?thesis
    proof (cases "c = newline")
      case True
      let ?sa = "s\<lparr>gpos := gpos s + length str + 1\<rparr>"
      let ?out = "ostream_write
                    (ostream_write out (size_t_bytes (of_nat (length str))) sizeof_size_t)
                    str (unat (of_nat (length str) :: size_t))"
      have ga: "getline s line = (str, ?sa)"
        using gs Cons True by simp
      have gb: "getline ?t line = (str, ?sa\<lparr>content := content ?sa @ [newline]\<rparr>)"
        using gt Cons True by simp
      have nf: "\<not> fails ?sa" "\<not> fails (?sa\<lparr>content := content ?sa @ [newline]\<rparr>)"
        using less.prems(1) by (simp_all add: fails_def good_def)
      have a: "encode_loop s line out = encode_loop ?sa str ?out"
        using ga nf(1) by (rule encode_loop_step)
      have b: "encode_loop ?t line out =
                 encode_loop (?sa\<lparr>content := content ?sa @ [newline]\<rparr>) str ?out"
        using gb nf(2) by (rule encode_loop_step)
      have r': "r = str @ newline # aft'"
        using r Cons True by simp
      have ne: "aft' \<noteq> []"
        using less.prems(4) r' by auto
      have la: "last aft' \<noteq> newline"
        using less.prems(4) r' ne by simp
      have shorter: "length aft' < length r"
        using r' by simp
      have good_a: "good ?sa"
        using less.prems(1) by (simp add: good_def)
      have "drop (length str + 1) (drop (gpos s) (content s)) = aft'"
        using less.prems(2) r' by simp
      then have rest_a: "drop (gpos ?sa) (content ?sa) = aft'"
        by (simp add: add.commute add.left_commute)
      have "encode_loop (?sa\<lparr>content := content ?sa @ [newline]\<rparr>) str ?out =
              encode_loop ?sa str ?out"
        using shorter good_a rest_a ne la by (rule less.hyps)
      then show ?thesis
        by (simp only: a b)
    next
      case False
      have "fails (snd (getline s line))" "fails (snd (getline ?t line))"
        using gs gt Cons False by (simp_all add: fails_def)
      then show ?thesis
        by (simp add: encode_loop_stops)
    qed
  qed
qed

subsection \<open>The encoder on files\<close>

lemma convert_opened:
  assumes "ifstream_is_open csvFile w" and "may_write w outputFile"
  shows "convertCSVToLengthIndicated csvFile outputFile w =
           w\<lparr>files := (files w)(outputFile \<mapsto>
                encode_loop
                  (istream_on (if csvFile = outputFile then [] else file_bytes w csvFile))
                  [] [])\<rparr>"
  using assms
  by (simp add: convertCSVToLengthIndicated_def ofstream_open_def file_bytes_def)

lemma convert_open_failure:
  assumes "\<not> ifstream_is_open csvFile w \<or> \<not> may_write w outputFile"
  shows "convertCSVToLengthIndicated csvFile outputFile w =
           (if may_write w outputFile then w\<lparr>files := (files w)(outputFile \<mapsto> [])\<rparr> else w)
           \<lparr>cerr := cerr w @ ''Error opening file!'' @ [newline]\<rparr>"
  using assms
  by (auto simp: convertCSVToLengthIndicated_def ofstream_open_def)

lemma istream_on_rest: "drop (gpos (istream_on bytes)) (content (istream_on bytes)) = bytes"
  by (simp add: istream_on_def)

lemma terminated_snoc: "terminated (ls @ [l]) = terminated ls @ l @ [newline]"
  by (simp add: terminated_def)

lemma encode_holds_lines:
  assumes "holds_lines text ls"
  shows "encode_loop (istream_on text) line out = out @ concat (map record_bytes ls)"
proof -
  from assms have all: "list_all text_line ls"
    by (simp add: holds_lines_def)
  have whole: "encode_loop (istream_on (terminated ls)) line out =
                 out @ concat (map record_bytes ls)"
    using all good_istream_on istream_on_rest by (rule encode_loop_terminated)
  show ?thesis
  proof (cases "text = terminated ls")
    case True
    with whole show ?thesis by simp
  next
    case False
    with assms have ne: "ls \<noteq> []" and last: "last ls \<noteq> []"
      and snoc: "text @ [newline] = terminated ls"
      by (simp_all add: holds_lines_def)
    have "terminated ls = terminated (butlast ls) @ last ls @ [newline]"
      using terminated_snoc [of "butlast ls" "last ls"] ne by simp
    with snoc have t: "text = terminated (butlast ls) @ last ls"
      by simp
    have "text_line (last ls)"
      using all ne by (simp add: list_all_iff)
    then have "last (last ls) \<noteq> newline"
      using last by (auto simp: text_line_def dest: last_in_set)
    then have "text \<noteq> []" and "last text \<noteq> newline"
      using t last by simp_all
    with good_istream_on istream_on_rest
    have "encode_loop ((istream_on text)\<lparr>content := content (istream_on text) @ [newline]\<rparr>)
            line out = encode_loop (istream_on text) line out"
      by (rule encode_loop_final_newline)
    moreover have "(istream_on text)\<lparr>content := content (istream_on text) @ [newline]\<rparr> =
                     istream_on (terminated ls)"
      using snoc by (simp add: istream_on_def)
    ultimately show ?thesis
      using whole by simp
  qed
qed

lemma convert_holds_lines:
  assumes "holds_lines text ls" and "files w csvFile = Some text" and "may_read w csvFile"
    and "may_write w outputFile" and "csvFile \<noteq> outputFile"
  shows "files (convertCSVToLengthIndicated csvFile outputFile w) outputFile =
           Some (concat (map record_bytes ls))"
proof -
  have "ifstream_is_open csvFile w"
    using assms(2,3) by (simp add: ifstream_is_open_def)
  then show ?thesis
    using assms(2,4,5) encode_holds_lines [OF assms(1), of "[]" "[]"]
    by (simp add: convert_opened file_bytes_def)
qed

lemma read_truncated:
  assumes "good s" and "drop (gpos s) (content s) = size_t_bytes len @ rest"
    and "length rest < unat len" and "unat len \<le> string_max_size"
    and "can_allocate heap s (unat len)"
  shows "readLengthIndicatedRecord heap uninit s =
           (Inr (rest @ replicate (unat len - length rest) NUL),
            s\<lparr>gpos := gpos s + sizeof_size_t + length rest, eofbit := True, failbit := True\<rparr>)"
proof -
  let ?s1 = "s\<lparr>gpos := gpos s + sizeof_size_t\<rparr>"
  have r1: "istream_read (size_t_bytes uninit) sizeof_size_t s = (size_t_bytes len, ?s1)"
    using assms(1,2) by (rule istream_read_exact) (simp_all add: length_size_t_bytes)
  have good1: "good ?s1"
    using assms(1) by (simp add: good_def)
  have "drop (sizeof_size_t) (drop (gpos s) (content s)) = rest"
    by (simp add: assms(2) length_size_t_bytes)
  then have rest1: "drop (gpos ?s1) (content ?s1) = rest"
    by (simp add: add.commute)
  have r2: "istream_read (replicate (unat len) NUL) (unat len) ?s1 =
              (rest @ drop (length rest) (replicate (unat len) NUL),
               ?s1\<lparr>gpos := gpos ?s1 + length rest, eofbit := True, failbit := True\<rparr>)"
    using good1 rest1 assms(3) by (rule istream_read_short)
  show ?thesis
    using assms(4,5)
    by (simp add: readLengthIndicatedRecord_def r1 size_t_of_bytes_bytes r2 add.assoc
        can_allocate_def)
qed

lemma read_refused:
  assumes "good s" and "drop (gpos s) (content s) = size_t_bytes len @ rest"
    and "unat len > string_max_size \<or> \<not> can_allocate heap s (unat len)"
  shows "readLengthIndicatedRecord heap uninit s =
           (Inl (if unat len > string_max_size then LengthError else BadAlloc),
            s\<lparr>gpos := gpos s + sizeof_size_t\<rparr>)"
proof -
  let ?s1 = "s\<lparr>gpos := gpos s + sizeof_size_t\<rparr>"
  have r1: "istream_read (size_t_bytes uninit) sizeof_size_t s = (size_t_bytes len, ?s1)"
    using assms(1,2) by (rule istream_read_exact) (simp_all add: length_size_t_bytes)
  show ?thesis
    using assms(3)
    by (auto simp: readLengthIndicatedRecord_def r1 size_t_of_bytes_bytes can_allocate_def)
qed

section \<open>The claims\<close>

subsection \<open>Encoding, then decoding\<close>

text \<open>
  Claim C1. For every sequence of text lines, empty lines and lines with commas among them,
  encoding a source that holds these lines into another file and then calling
  \<open>readLengthIndicatedRecord\<close> on the result until the stream fails gives back exactly
  these lines in their order. The lines are \<^verbatim>\<open>std::string\<close>s without a newline; the
  source holds each followed by a newline, the last newline being optional after a non-empty
  line. The call that meets the end of the stream returns with the stream failed, or throws
  when its uninitialised length is above \<open>string_max_size\<close> or above what the memory
  gives; nothing is taken from it.
\<close>

theorem roundtrip:
  assumes "holds_lines input ls"
    and "files w csvFile = Some input" and "may_read w csvFile"
    and "may_write w outputFile" and "csvFile \<noteq> outputFile"
  shows "decode_all heap uninit 0
           (istream_on (file_bytes (convertCSVToLengthIndicated csvFile outputFile w) outputFile))
           [] =
         (ls, if unat (uninit (length ls)) > string_max_size then Raised LengthError
              else if \<not> can_allocate (heap (length ls))
                        (istream_on (file_bytes
                           (convertCSVToLengthIndicated csvFile outputFile w) outputFile))
                        (unat (uninit (length ls)))
              then Raised BadAlloc
              else EndOfStream)"
proof -
  let ?bin = "concat (map record_bytes ls)"
  have "files (convertCSVToLengthIndicated csvFile outputFile w) outputFile = Some ?bin"
    using assms by (rule convert_holds_lines)
  then have bin: "file_bytes (convertCSVToLengthIndicated csvFile outputFile w) outputFile = ?bin"
    by (simp add: file_bytes_def)
  have "\<forall>l\<in>set ls. length l \<le> string_max_size"
    using assms(1) by (simp add: holds_lines_def list_all_iff text_line_def)
  then have "decode_all heap uninit 0 (istream_on ?bin) [] =
               ([] @ ls, last_call (heap (0 + length ls)) (uninit (0 + length ls))
                           (istream_on ?bin))"
    using good_istream_on istream_on_rest by (rule decode_all_records)
  then show ?thesis
    by (simp add: bin last_call_def)
qed

text \<open>The theorem at a source of three lines, one empty, the last unterminated.\<close>

theorem roundtrip_witness:
  "holds_lines (''a,b'' @ [newline] @ [newline] @ ''c'') [''a,b'', [], ''c''] \<and>
   decode_all (\<lambda>_. 0) (\<lambda>_. 0) 0
     (istream_on (file_bytes
        (convertCSVToLengthIndicated ''in.csv'' ''out.bin''
           (world_of [(''in.csv'', ''a,b'' @ [newline] @ [newline] @ ''c'')]))
        ''out.bin'')) [] =
   ([''a,b'', [], ''c''], EndOfStream)"
proof -
  have h: "holds_lines (''a,b'' @ [newline] @ [newline] @ ''c'') [''a,b'', [], ''c'']"
    by (simp add: holds_lines_def text_line_def terminated_def newline_def string_max_size_def)
  show ?thesis
    using h roundtrip [OF h, of "world_of [(''in.csv'', ''a,b'' @ [newline] @ [newline] @ ''c'')]"
        "''in.csv''" "''out.bin''" "\<lambda>_. 0" "\<lambda>_. 0"]
    by (simp add: world_of_def string_max_size_def can_allocate_def)
qed

subsection \<open>More auxiliary facts on single records\<close>

lemma holds_single_line:
  "input = ''a,b,c'' @ [newline] \<or> input = ''a,b,c'' \<Longrightarrow> holds_lines input [''a,b,c'']"
  by (auto simp: holds_lines_def text_line_def terminated_def newline_def string_max_size_def)

lemma length_field_of_record:
  "size_t_of_bytes (take sizeof_size_t (record_bytes l)) = of_nat (length l)"
  by (simp add: record_bytes_def length_size_t_bytes size_t_of_bytes_bytes)

lemma read_exhausted_state:
  assumes "good s" and "length (drop (gpos s) (content s)) < sizeof_size_t"
  shows "eofbit (snd (readLengthIndicatedRecord heap uninit s)) \<and>
         failbit (snd (readLengthIndicatedRecord heap uninit s)) \<and>
         gpos (snd (readLengthIndicatedRecord heap uninit s)) =
           gpos s + length (drop (gpos s) (content s))"
  using read_exhausted [OF assms(1) refl assms(2), of heap uninit]
  by (simp add: Let_def)

subsection \<open>Reading one record\<close>

text \<open>
  Claim C2. On a good stream positioned at a length field of value \<open>len\<close> that is
  followed by at least \<open>len\<close> bytes, the call returns the next \<open>len\<close> bytes, a
  string of exactly \<open>len\<close> bytes, and moves the position by the size of the length field
  plus \<open>len\<close>, to the first byte after the record; the stream stays as it was otherwise.
  This holds whatever the uninitialised variable held.
\<close>

theorem read_one_record:
  assumes "good s"
    and "drop (gpos s) (content s) = size_t_bytes len @ following"
    and "unat len \<le> length following" and "unat len \<le> string_max_size"
  shows "readLengthIndicatedRecord heap uninit s =
           (Inr (take (unat len) following),
            s\<lparr>gpos := gpos s + sizeof_size_t + unat len\<rparr>) \<and>
         length (take (unat len) following) = unat len \<and>
         drop (gpos s + sizeof_size_t + unat len) (content s) = drop (unat len) following"
proof -
  have split: "drop (gpos s) (content s) =
                 size_t_bytes len @ take (unat len) following @ drop (unat len) following"
    using assms(2) by simp
  have len: "length (take (unat len) following) = unat len"
    using assms(3) by simp
  have "readLengthIndicatedRecord heap uninit s =
          (Inr (take (unat len) following), s\<lparr>gpos := gpos s + sizeof_size_t + unat len\<rparr>)"
    using assms(1) split len assms(4) by (rule read_record)
  moreover have "drop (sizeof_size_t + unat len) (drop (gpos s) (content s)) =
                   drop (unat len) following"
    by (simp add: assms(2) length_size_t_bytes)
  then have "drop (gpos s + sizeof_size_t + unat len) (content s) = drop (unat len) following"
    by (simp add: add.commute add.left_commute)
  ultimately show ?thesis
    using len by simp
qed

text \<open>
  The theorem on a stream that holds the record \<open>hi\<close> and one more length field.
\<close>

theorem read_one_record_witness:
  "good (istream_on (size_t_bytes 2 @ ''hi'' @ size_t_bytes 0)) \<and>
   unat (2 :: size_t) \<le> length (''hi'' @ size_t_bytes 0) \<and>
   unat (2 :: size_t) \<le> string_max_size \<and>
   readLengthIndicatedRecord 0 7 (istream_on (size_t_bytes 2 @ ''hi'' @ size_t_bytes 0)) =
     (Inr ''hi'', (istream_on (size_t_bytes 2 @ ''hi'' @ size_t_bytes 0))\<lparr>gpos := 10\<rparr>)"
proof -
  let ?s = "istream_on (size_t_bytes 2 @ ''hi'' @ size_t_bytes 0)"
  have g: "good ?s" by (rule good_istream_on)
  have r: "drop (gpos ?s) (content ?s) = size_t_bytes 2 @ (''hi'' @ size_t_bytes 0)"
    by (simp add: istream_on_def)
  have a: "unat (2 :: size_t) \<le> length (''hi'' @ size_t_bytes 0)" by simp
  have b: "unat (2 :: size_t) \<le> string_max_size" by (simp add: string_max_size_def)
  show ?thesis
    using g a b read_one_record [OF g r a b, of 0 7]
    by (simp add: sizeof_size_t_def istream_on_def)
qed

text \<open>
  Claim C3 asks for a distinct truncation status when the length field declares more bytes
  than remain. The code has none. With a length field of 3 and one byte left the call returns
  a string, no error, and the state bits of the stream are those the call leaves at a clean
  end of the stream (\<open>eofbit\<close> and \<open>failbit\<close> set, \<open>badbit\<close> clear).
\<close>

theorem truncation_not_reported:
  "fst (readLengthIndicatedRecord 0 0 (istream_on (size_t_bytes 3 @ ''a''))) =
     Inr (''a'' @ [NUL, NUL]) \<and>
   eofbit (snd (readLengthIndicatedRecord 0 0 (istream_on (size_t_bytes 3 @ ''a'')))) \<and>
   failbit (snd (readLengthIndicatedRecord 0 0 (istream_on (size_t_bytes 3 @ ''a'')))) \<and>
   \<not> badbit (snd (readLengthIndicatedRecord 0 0 (istream_on (size_t_bytes 3 @ ''a'')))) \<and>
   eofbit (snd (readLengthIndicatedRecord 0 0 (istream_on []))) \<and>
   failbit (snd (readLengthIndicatedRecord 0 0 (istream_on []))) \<and>
   \<not> badbit (snd (readLengthIndicatedRecord 0 0 (istream_on [])))"
proof -
  let ?s = "istream_on (size_t_bytes 3 @ ''a'')"
  have "readLengthIndicatedRecord 0 0 ?s =
          (Inr (''a'' @ replicate (unat (3 :: size_t) - length ''a'') NUL),
           ?s\<lparr>gpos := gpos ?s + sizeof_size_t + length ''a'', eofbit := True, failbit := True\<rparr>)"
    by (rule read_truncated [OF good_istream_on])
       (simp_all add: istream_on_def string_max_size_def can_allocate_def
          length_size_t_bytes sizeof_size_t_def)
  moreover have "unat (3 :: size_t) - length ''a'' = Suc (Suc 0)"
    by simp
  moreover have "readLengthIndicatedRecord 0 0 (istream_on []) =
          (Inr [], (istream_on [])\<lparr>eofbit := True, failbit := True\<rparr>)"
    using read_exhausted [OF good_istream_on istream_on_rest, of "[]" 0 0]
    by (simp add: sizeof_size_t_def size_t_of_bytes_bytes istream_on_def can_allocate_def)
  ultimately show ?thesis
    by (simp add: istream_on_def numeral_2_eq_2)
qed

text \<open>
  Claim C3 as the code has it. When the length field \<open>len\<close> declares more bytes than
  remain, the call reports no truncation. Where a string of \<open>len\<close> bytes can be built, it
  returns a string of exactly \<open>len\<close> bytes, the remaining bytes followed by NUL bytes, and
  leaves the stream at its end with \<open>eofbit\<close> and \<open>failbit\<close> set. Where it cannot, the
  string constructor throws, \<^verbatim>\<open>std::length_error\<close> above \<open>string_max_size\<close> and
  \<^verbatim>\<open>std::bad_alloc\<close> when the memory is not there, and the stream is still good, just
  after the length field.
\<close>

theorem truncated_record_padded:
  assumes "good s"
    and "drop (gpos s) (content s) = size_t_bytes len @ remaining"
    and "length remaining < unat len"
  shows "readLengthIndicatedRecord heap uninit s =
           (if unat len > string_max_size
            then (Inl LengthError, s\<lparr>gpos := gpos s + sizeof_size_t\<rparr>)
            else if \<not> can_allocate heap s (unat len)
            then (Inl BadAlloc, s\<lparr>gpos := gpos s + sizeof_size_t\<rparr>)
            else (Inr (remaining @ replicate (unat len - length remaining) NUL),
                  s\<lparr>gpos := length (content s), eofbit := True, failbit := True\<rparr>)) \<and>
         length (remaining @ replicate (unat len - length remaining) NUL) = unat len"
proof -
  have "length (drop (gpos s) (content s)) = sizeof_size_t + length remaining"
    by (simp only: assms(2) length_append length_size_t_bytes)
  then have end_pos: "gpos s + sizeof_size_t + length remaining = length (content s)"
    by (simp add: sizeof_size_t_def)
  have len: "length (remaining @ replicate (unat len - length remaining) NUL) = unat len"
    using assms(3) by simp
  show ?thesis
  proof (cases "unat len > string_max_size \<or> \<not> can_allocate heap s (unat len)")
    case True
    then show ?thesis
      using read_refused [OF assms(1,2) True, of uninit] len by auto
  next
    case False
    then have "unat len \<le> string_max_size" and "can_allocate heap s (unat len)"
      by simp_all
    with assms have "readLengthIndicatedRecord heap uninit s =
        (Inr (remaining @ replicate (unat len - length remaining) NUL),
         s\<lparr>gpos := gpos s + sizeof_size_t + length remaining,
           eofbit := True, failbit := True\<rparr>)"
      by (rule read_truncated)
    then show ?thesis
      using False len end_pos by simp
  qed
qed

text \<open>
  The theorem at a length field of 3 followed by one byte, where the string is built, and
  at a length field of \<open>string_max_size\<close> followed by nothing with a heap of a million
  bytes, where it is not.
\<close>

theorem truncated_record_padded_witness:
  "good (istream_on (size_t_bytes 3 @ ''a'')) \<and>
   length ''a'' < unat (3 :: size_t) \<and>
   readLengthIndicatedRecord 0 0 (istream_on (size_t_bytes 3 @ ''a'')) =
     (Inr (''a'' @ replicate (unat (3 :: size_t) - length ''a'') NUL),
      (istream_on (size_t_bytes 3 @ ''a''))
        \<lparr>gpos := length (content (istream_on (size_t_bytes 3 @ ''a''))),
         eofbit := True, failbit := True\<rparr>) \<and>
   good (istream_on (size_t_bytes 0x3FFFFFFFFFFFFFFF)) \<and>
   length ([] :: string) < unat (0x3FFFFFFFFFFFFFFF :: size_t) \<and>
   readLengthIndicatedRecord 1000000 0 (istream_on (size_t_bytes 0x3FFFFFFFFFFFFFFF)) =
     (Inl BadAlloc, (istream_on (size_t_bytes 0x3FFFFFFFFFFFFFFF))\<lparr>gpos := 8\<rparr>)"
proof -
  let ?s = "istream_on (size_t_bytes 3 @ ''a'')"
  let ?t = "istream_on (size_t_bytes 0x3FFFFFFFFFFFFFFF)"
  have g: "good ?s" by (rule good_istream_on)
  have r: "drop (gpos ?s) (content ?s) = size_t_bytes 3 @ ''a''"
    by (rule istream_on_rest)
  have a: "length ''a'' < unat (3 :: size_t)" by simp
  have g': "good ?t" by (rule good_istream_on)
  have r': "drop (gpos ?t) (content ?t) = size_t_bytes 0x3FFFFFFFFFFFFFFF @ []"
    by (simp add: istream_on_def)
  have a': "length ([] :: string) < unat (0x3FFFFFFFFFFFFFFF :: size_t)" by simp
  have first: "readLengthIndicatedRecord 0 0 ?s =
     (Inr (''a'' @ replicate (unat (3 :: size_t) - length ''a'') NUL),
      ?s\<lparr>gpos := length (content ?s), eofbit := True, failbit := True\<rparr>)"
    using truncated_record_padded [OF g r a, of 0 0]
    by (simp add: string_max_size_def can_allocate_def istream_on_def length_size_t_bytes
        sizeof_size_t_def)
  have second: "readLengthIndicatedRecord 1000000 0 ?t = (Inl BadAlloc, ?t\<lparr>gpos := 8\<rparr>)"
    using truncated_record_padded [OF g' r' a', of 1000000 0]
    by (simp add: string_max_size_def can_allocate_def istream_on_def length_size_t_bytes
        sizeof_size_t_def)
  show ?thesis
    using g a g' a' first second by simp
qed

subsection \<open>The end of the stream\<close>

text \<open>
  Claim C8 says that a call on a stream exhausted before a whole length field signals the end
  of the stream and no error. The first read does set \<open>eofbit\<close> and \<open>failbit\<close>
  (\<open>read_exhausted_state\<close>), but the code goes on to build a string of \<open>recordLength\<close>
  bytes, and \<open>recordLength\<close> was never given a value. On the empty stream, with all bits
  set in that variable, the call throws.
\<close>

theorem exhausted_stream_throws:
  "readLengthIndicatedRecord heap 0xFFFFFFFFFFFFFFFF (istream_on []) =
     (Inl LengthError, (istream_on [])\<lparr>eofbit := True, failbit := True\<rparr>)"
proof -
  have "unat (0xFFFFFFFFFFFFFFFF :: size_t) > string_max_size"
    by (simp add: string_max_size_def)
  then show ?thesis
    using read_exhausted
      [where s = "istream_on []" and bs = "[]" and uninit = "0xFFFFFFFFFFFFFFFF"
        and heap = heap]
    by (simp add: good_def sizeof_size_t_def size_t_of_bytes_bytes istream_on_def)
qed

text \<open>
  Claim C6. Encoding an empty input file gives an empty output file. A call of
  \<open>readLengthIndicatedRecord\<close> on it reads nothing and leaves the stream with \<open>eofbit\<close>
  and \<open>failbit\<close> set; what it returns is no record of the file (NUL bytes, as many as the
  uninitialised variable says, or an exception of the string constructor), and the caller
  that checks the stream after the call gets no record. The two paths may even be the same.
\<close>

theorem empty_input:
  assumes "files w csvFile = Some []" and "may_read w csvFile" and "may_write w outputFile"
  shows "files (convertCSVToLengthIndicated csvFile outputFile w) outputFile = Some [] \<and>
         readLengthIndicatedRecord heap uninit
           (istream_on (file_bytes (convertCSVToLengthIndicated csvFile outputFile w) outputFile)) =
           (if unat uninit > string_max_size then Inl LengthError
            else if unat uninit > heap then Inl BadAlloc
            else Inr (replicate (unat uninit) NUL),
            (istream_on [])\<lparr>eofbit := True, failbit := True\<rparr>) \<and>
         fst (decode_all h u 0
           (istream_on (file_bytes (convertCSVToLengthIndicated csvFile outputFile w) outputFile))
           []) = []"
proof -
  have "ifstream_is_open csvFile w"
    using assms(1,2) by (simp add: ifstream_is_open_def)
  then have conv: "convertCSVToLengthIndicated csvFile outputFile w =
      w\<lparr>files := (files w)(outputFile \<mapsto> encode_loop (istream_on []) [] [])\<rparr>"
    using assms(1,3) by (simp add: convert_opened file_bytes_def)
  have "holds_lines [] []"
    by (simp add: holds_lines_def terminated_def)
  then have "encode_loop (istream_on []) [] [] = [] @ concat (map record_bytes [])"
    by (rule encode_holds_lines)
  then have out: "files (convertCSVToLengthIndicated csvFile outputFile w) outputFile = Some []"
    by (simp add: conv)
  then have bin: "file_bytes (convertCSVToLengthIndicated csvFile outputFile w) outputFile = []"
    by (simp add: file_bytes_def)
  have rd: "readLengthIndicatedRecord heap uninit (istream_on []) =
          (if unat uninit > string_max_size then Inl LengthError
            else if unat uninit > heap then Inl BadAlloc
            else Inr (replicate (unat uninit) NUL),
            (istream_on [])\<lparr>eofbit := True, failbit := True\<rparr>)"
    using read_exhausted
      [where s = "istream_on []" and bs = "[]" and uninit = uninit and heap = heap]
    by (auto simp: good_def sizeof_size_t_def size_t_of_bytes_bytes istream_on_def
        can_allocate_def)
  have "decode_all h u 0 (istream_on []) [] =
          ([] @ [], last_call (h (0 + length ([] :: string list)))
                      (u (0 + length ([] :: string list))) (istream_on []))"
    by (rule decode_all_records) (simp_all add: good_istream_on istream_on_rest)
  then show ?thesis
    using out rd by (simp add: bin)
qed

text \<open>
  The theorem at an empty \<^verbatim>\<open>in.csv\<close>.
\<close>

theorem empty_input_witness:
  "files (convertCSVToLengthIndicated ''in.csv'' ''out.bin'' (world_of [(''in.csv'', [])]))
     ''out.bin'' = Some [] \<and>
   eofbit (snd (readLengthIndicatedRecord 0 0
     (istream_on (file_bytes
        (convertCSVToLengthIndicated ''in.csv'' ''out.bin'' (world_of [(''in.csv'', [])]))
        ''out.bin''))))"
  using empty_input [of "world_of [(''in.csv'', [])]" "''in.csv''" "''out.bin''" 0 0]
  by (simp add: world_of_def)

subsection \<open>What the encoder writes\<close>

text \<open>
  Claim C5 says that the single line \<^verbatim>\<open>a,b,c\<close> gives a file of the size of the length
  field plus 3 bytes with a length field of 3. The line has five bytes, \<^verbatim>\<open>a , b , c\<close>:
  the file has the size of the length field plus 5 bytes and the length field holds 5.
\<close>

theorem single_record_is_five_bytes:
  "length (file_bytes (convertCSVToLengthIndicated ''in.csv'' ''out.bin''
             (world_of [(''in.csv'', ''a,b,c'' @ [newline])])) ''out.bin'') = sizeof_size_t + 5 \<and>
   length (file_bytes (convertCSVToLengthIndicated ''in.csv'' ''out.bin''
             (world_of [(''in.csv'', ''a,b,c'' @ [newline])])) ''out.bin'') \<noteq> sizeof_size_t + 3 \<and>
   size_t_of_bytes (take sizeof_size_t
     (file_bytes (convertCSVToLengthIndicated ''in.csv'' ''out.bin''
        (world_of [(''in.csv'', ''a,b,c'' @ [newline])])) ''out.bin'')) = 5 \<and>
   size_t_of_bytes (take sizeof_size_t
     (file_bytes (convertCSVToLengthIndicated ''in.csv'' ''out.bin''
        (world_of [(''in.csv'', ''a,b,c'' @ [newline])])) ''out.bin'')) \<noteq> 3"
proof -
  let ?w = "world_of [(''in.csv'', ''a,b,c'' @ [newline])]"
  have "holds_lines (''a,b,c'' @ [newline]) [''a,b,c'']"
    by (rule holds_single_line) simp
  then have "files (convertCSVToLengthIndicated ''in.csv'' ''out.bin'' ?w) ''out.bin'' =
               Some (concat (map record_bytes [''a,b,c'']))"
    by (rule convert_holds_lines) (simp_all add: world_of_def)
  then have bin: "file_bytes (convertCSVToLengthIndicated ''in.csv'' ''out.bin'' ?w) ''out.bin'' =
               record_bytes ''a,b,c''"
    by (simp add: file_bytes_def)
  have n: "length (record_bytes ''a,b,c'') = sizeof_size_t + 5"
    by (simp add: record_bytes_def length_size_t_bytes)
  have v: "size_t_of_bytes (take sizeof_size_t (record_bytes ''a,b,c'')) = 5"
    by (simp add: length_field_of_record)
  show ?thesis
    unfolding bin n v by simp
qed

text \<open>
  Claim C5 with the count put right. Encoding the single line \<^verbatim>\<open>a,b,c\<close>, with or without
  its newline, gives a file of the size of the length field plus 5 bytes: the length field,
  which holds 5, and then the bytes \<^verbatim>\<open>a , b , c\<close> in this order.
\<close>

theorem single_record:
  assumes "input = ''a,b,c'' @ [newline] \<or> input = ''a,b,c''"
    and "files w csvFile = Some input" and "may_read w csvFile"
    and "may_write w outputFile" and "csvFile \<noteq> outputFile"
  shows "files (convertCSVToLengthIndicated csvFile outputFile w) outputFile =
           Some (size_t_bytes 5 @ ''a,b,c'') \<and>
         length (size_t_bytes 5 @ ''a,b,c'') = sizeof_size_t + 5 \<and>
         size_t_of_bytes (take sizeof_size_t (size_t_bytes 5 @ ''a,b,c'')) = 5 \<and>
         drop sizeof_size_t (size_t_bytes 5 @ ''a,b,c'') = ''a,b,c''"
proof -
  have "holds_lines input [''a,b,c'']"
    using assms(1) by (rule holds_single_line)
  then have "files (convertCSVToLengthIndicated csvFile outputFile w) outputFile =
               Some (concat (map record_bytes [''a,b,c'']))"
    using assms(2-5) by (rule convert_holds_lines)
  moreover have "record_bytes ''a,b,c'' = size_t_bytes 5 @ ''a,b,c''"
    by (simp add: record_bytes_def)
  ultimately show ?thesis
    by (simp add: length_size_t_bytes size_t_of_bytes_bytes)
qed

text \<open>
  The theorem at an \<^verbatim>\<open>in.csv\<close> that holds the line without a newline.
\<close>

theorem single_record_witness:
  "files (convertCSVToLengthIndicated ''in.csv'' ''out.bin'' (world_of [(''in.csv'', ''a,b,c'')]))
     ''out.bin'' = Some (size_t_bytes 5 @ ''a,b,c'')"
  using single_record [of "''a,b,c''" "world_of [(''in.csv'', ''a,b,c'')]" "''in.csv''" "''out.bin''"]
  by (simp add: world_of_def)

text \<open>
  Claim C7. For every input line the newline that ends it is neither written nor counted:
  the output is, line by line, the length field holding the number of bytes of the line
  without its newline, followed by these bytes, which contain no newline.
\<close>

theorem terminator_stripped:
  assumes "holds_lines input ls"
    and "files w csvFile = Some input" and "may_read w csvFile"
    and "may_write w outputFile" and "csvFile \<noteq> outputFile"
  shows "files (convertCSVToLengthIndicated csvFile outputFile w) outputFile =
           Some (concat (map (\<lambda>l. size_t_bytes (of_nat (length l)) @ l) ls)) \<and>
         (\<forall>l\<in>set ls. unat (of_nat (length l) :: size_t) = length l \<and>
                     size_t_of_bytes (size_t_bytes (of_nat (length l))) = of_nat (length l) \<and>
                     newline \<notin> set l)"
proof -
  have "files (convertCSVToLengthIndicated csvFile outputFile w) outputFile =
          Some (concat (map record_bytes ls))"
    using assms by (rule convert_holds_lines)
  moreover have "record_bytes = (\<lambda>l. size_t_bytes (of_nat (length l)) @ l)"
    by (rule ext) (simp add: record_bytes_def)
  moreover have "\<forall>l\<in>set ls. text_line l"
    using assms(1) by (simp add: holds_lines_def list_all_iff)
  ultimately show ?thesis
    by (auto simp: size_t_of_bytes_bytes text_line_def unat_length_word)
qed

text \<open>
  The theorem at an input of two terminated lines.
\<close>

theorem terminator_stripped_witness:
  "holds_lines (''ab'' @ [newline] @ ''c'' @ [newline]) [''ab'', ''c''] \<and>
   files (convertCSVToLengthIndicated ''in.csv'' ''out.bin''
            (world_of [(''in.csv'', ''ab'' @ [newline] @ ''c'' @ [newline])])) ''out.bin'' =
     Some (size_t_bytes 2 @ ''ab'' @ size_t_bytes 1 @ ''c'')"
proof -
  have h: "holds_lines (''ab'' @ [newline] @ ''c'' @ [newline]) [''ab'', ''c'']"
    by (simp add: holds_lines_def text_line_def terminated_def newline_def string_max_size_def)
  show ?thesis
    using h terminator_stripped [OF h,
        of "world_of [(''in.csv'', ''ab'' @ [newline] @ ''c'' @ [newline])]"
        "''in.csv''" "''out.bin''"]
    by (simp add: world_of_def)
qed

text \<open>
  Claim C10. For every non-empty input whose last byte is not a newline, the encoder writes
  byte for byte what it writes for the same input with a newline appended, and the final
  line is a record of that output: when the input is the terminated lines \<open>pre\<close> followed
  by the unterminated line \<open>l\<close>, the output is the records of \<open>pre\<close> followed by the
  record of \<open>l\<close>.
\<close>

theorem missing_final_terminator:
  assumes "input \<noteq> []" and "last input \<noteq> newline"
    and "files w csvFile = Some input" and "files w' csvFile = Some (input @ [newline])"
    and "may_read w csvFile" and "may_read w' csvFile"
    and "may_write w outputFile" and "may_write w' outputFile"
    and "csvFile \<noteq> outputFile"
  shows "files (convertCSVToLengthIndicated csvFile outputFile w) outputFile =
         files (convertCSVToLengthIndicated csvFile outputFile w') outputFile \<and>
         (list_all text_line pre \<and> text_line l \<and> input = terminated pre @ l \<longrightarrow>
          files (convertCSVToLengthIndicated csvFile outputFile w) outputFile =
            Some (concat (map record_bytes pre) @ record_bytes l))"
proof
  have o: "ifstream_is_open csvFile w" "ifstream_is_open csvFile w'"
    using assms(3-6) by (simp_all add: ifstream_is_open_def)
  have "encode_loop ((istream_on input)\<lparr>content := content (istream_on input) @ [newline]\<rparr>)
          [] [] = encode_loop (istream_on input) [] []"
    using good_istream_on istream_on_rest assms(1,2) by (rule encode_loop_final_newline)
  moreover have "(istream_on input)\<lparr>content := content (istream_on input) @ [newline]\<rparr> =
                   istream_on (input @ [newline])"
    by (simp add: istream_on_def)
  ultimately show "files (convertCSVToLengthIndicated csvFile outputFile w) outputFile =
                   files (convertCSVToLengthIndicated csvFile outputFile w') outputFile"
    using assms(3,4,7,8,9) o by (simp add: convert_opened file_bytes_def)
next
  show "list_all text_line pre \<and> text_line l \<and> input = terminated pre @ l \<longrightarrow>
          files (convertCSVToLengthIndicated csvFile outputFile w) outputFile =
            Some (concat (map record_bytes pre) @ record_bytes l)"
  proof
    assume h: "list_all text_line pre \<and> text_line l \<and> input = terminated pre @ l"
    have "l \<noteq> []"
    proof
      assume "l = []"
      with h assms(1) have "input = terminated pre" and "pre \<noteq> []"
        by (auto simp: terminated_def)
      then have "input = terminated (butlast pre) @ last pre @ [newline]"
        using terminated_snoc [of "butlast pre" "last pre"] by simp
      then have "last input = newline"
        by simp
      with assms(2) show False by simp
    qed
    moreover have "input @ [newline] = terminated (pre @ [l])"
      using h by (simp add: terminated_snoc)
    ultimately have "holds_lines input (pre @ [l])"
      using h by (simp add: holds_lines_def)
    then have "files (convertCSVToLengthIndicated csvFile outputFile w) outputFile =
                 Some (concat (map record_bytes (pre @ [l])))"
      using assms(3,5,7,9) by (rule convert_holds_lines)
    then show "files (convertCSVToLengthIndicated csvFile outputFile w) outputFile =
                 Some (concat (map record_bytes pre) @ record_bytes l)"
      by simp
  qed
qed

text \<open>
  The theorem at the input of the line \<^verbatim>\<open>x\<close>, a newline and the line \<^verbatim>\<open>a,b\<close>
  without one: both outputs are the record of \<^verbatim>\<open>x\<close> followed by the record of
  \<^verbatim>\<open>a,b\<close>.
\<close>

theorem missing_final_terminator_witness:
  "files (convertCSVToLengthIndicated ''in.csv'' ''out.bin''
            (world_of [(''in.csv'', ''x'' @ [newline] @ ''a,b'')])) ''out.bin'' =
     Some (size_t_bytes 1 @ ''x'' @ size_t_bytes 3 @ ''a,b'') \<and>
   files (convertCSVToLengthIndicated ''in.csv'' ''out.bin''
            (world_of [(''in.csv'', (''x'' @ [newline] @ ''a,b'') @ [newline])])) ''out.bin'' =
     Some (size_t_bytes 1 @ ''x'' @ size_t_bytes 3 @ ''a,b'')"
proof -
  let ?input = "''x'' @ [newline] @ ''a,b''"
  let ?short = "files (convertCSVToLengthIndicated ''in.csv'' ''out.bin''
                  (world_of [(''in.csv'', ?input)])) ''out.bin''"
  let ?long = "files (convertCSVToLengthIndicated ''in.csv'' ''out.bin''
                 (world_of [(''in.csv'', ?input @ [newline])])) ''out.bin''"
  have lines: "list_all text_line [''x''] \<and> text_line ''a,b'' \<and>
               ?input = terminated [''x''] @ ''a,b''"
    by (simp add: text_line_def terminated_def newline_def string_max_size_def)
  have both: "?short = ?long \<and>
        (list_all text_line [''x''] \<and> text_line ''a,b'' \<and>
           ?input = terminated [''x''] @ ''a,b'' \<longrightarrow>
         ?short = Some (concat (map record_bytes [''x'']) @ record_bytes ''a,b''))"
    by (rule missing_final_terminator) (simp_all add: world_of_def newline_def)
  have same: "?short = ?long"
    using both by (rule conjunct1)
  have final: "?short = Some (concat (map record_bytes [''x'']) @ record_bytes ''a,b'')"
    using both lines by (rule conjunct2 [THEN mp])
  have "concat (map record_bytes [''x'']) @ record_bytes ''a,b'' =
          size_t_bytes 1 @ ''x'' @ size_t_bytes 3 @ ''a,b''"
    by (simp add: record_bytes_def)
  with final have a: "?short = Some (size_t_bytes 1 @ ''x'' @ size_t_bytes 3 @ ''a,b'')"
    by (simp only:)
  have b: "?long = Some (size_t_bytes 1 @ ''x'' @ size_t_bytes 3 @ ''a,b'')"
    by (rule trans [OF same [symmetric] a])
  show ?thesis
    using a b by (rule conjI)
qed

subsection \<open>Files that do not open\<close>

text \<open>
  Claim C4. When the input cannot be opened for reading or the output cannot be opened for
  writing, the encoder prints its message on \<^verbatim>\<open>std::cerr\<close> and writes no record: the
  output file is as it was, or empty when the output itself could be opened. No other file
  changes.
\<close>

theorem open_failure_writes_no_record:
  assumes "\<not> ifstream_is_open csvFile w \<or> \<not> may_write w outputFile"
  shows "cerr (convertCSVToLengthIndicated csvFile outputFile w) =
           cerr w @ ''Error opening file!'' @ [newline] \<and>
         files (convertCSVToLengthIndicated csvFile outputFile w) =
           (if may_write w outputFile then (files w)(outputFile \<mapsto> []) else files w) \<and>
         (files (convertCSVToLengthIndicated csvFile outputFile w) outputFile = Some [] \<or>
          files (convertCSVToLengthIndicated csvFile outputFile w) outputFile =
            files w outputFile)"
  using convert_open_failure [OF assms] by simp

text \<open>
  The theorem at an output that cannot be opened and holds \<^verbatim>\<open>old\<close>.
\<close>

theorem open_failure_writes_no_record_witness:
  "\<not> may_write
       \<lparr>files = [''in.csv'' \<mapsto> ''a,b'' @ [newline], ''out.bin'' \<mapsto> ''old''],
        may_read = (\<lambda>_. True), may_write = (\<lambda>_. False), cerr = []\<rparr> ''out.bin'' \<and>
   cerr (convertCSVToLengthIndicated ''in.csv'' ''out.bin''
       \<lparr>files = [''in.csv'' \<mapsto> ''a,b'' @ [newline], ''out.bin'' \<mapsto> ''old''],
        may_read = (\<lambda>_. True), may_write = (\<lambda>_. False), cerr = []\<rparr>) =
     ''Error opening file!'' @ [newline] \<and>
   files (convertCSVToLengthIndicated ''in.csv'' ''out.bin''
       \<lparr>files = [''in.csv'' \<mapsto> ''a,b'' @ [newline], ''out.bin'' \<mapsto> ''old''],
        may_read = (\<lambda>_. True), may_write = (\<lambda>_. False), cerr = []\<rparr>) ''out.bin'' =
     Some ''old''"
  using open_failure_writes_no_record [of "''in.csv''"
      "\<lparr>files = [''in.csv'' \<mapsto> ''a,b'' @ [newline], ''out.bin'' \<mapsto> ''old''],
        may_read = (\<lambda>_. True), may_write = (\<lambda>_. False), cerr = []\<rparr>" "''out.bin''"]
  by simp

text \<open>
  Claim C9. When the input cannot be opened and the output can, the output file exists and
  is empty afterwards, whatever it held before, and the message is printed.
\<close>

theorem failed_open_truncates_output:
  assumes "\<not> ifstream_is_open csvFile w" and "may_write w outputFile"
  shows "files (convertCSVToLengthIndicated csvFile outputFile w) outputFile = Some [] \<and>
         cerr (convertCSVToLengthIndicated csvFile outputFile w) =
           cerr w @ ''Error opening file!'' @ [newline]"
  using convert_open_failure [of csvFile w outputFile] assms by simp

text \<open>
  The theorem at a missing input and an output that holds \<^verbatim>\<open>old\<close>.
\<close>

theorem failed_open_truncates_output_witness:
  "\<not> ifstream_is_open ''missing.csv'' (world_of [(''out.bin'', ''old'')]) \<and>
   files (world_of [(''out.bin'', ''old'')]) ''out.bin'' = Some ''old'' \<and>
   files (convertCSVToLengthIndicated ''missing.csv'' ''out.bin''
            (world_of [(''out.bin'', ''old'')])) ''out.bin'' = Some []"
  using failed_open_truncates_output
    [of "''missing.csv''" "world_of [(''out.bin'', ''old'')]" "''out.bin''"]
  by (simp add: world_of_def ifstream_is_open_def)

end
